theory Spec2Isabelle
  imports Complex_Main
begin

section \<open>The heat-equation notebook as HOL functions\<close>

text \<open>
  The notebook \<^verbatim>\<open>heatequation.ipynb\<close> is a sequence of cells over the globals
  \<^verbatim>\<open>h\<close>, \<^verbatim>\<open>n\<close>, \<^verbatim>\<open>th\<close>, \<^verbatim>\<open>t\<close>, \<^verbatim>\<open>a\<close>. Each cell becomes a function of the globals
  it reads. Python integers are \<^typ>\<open>int\<close>. Floating-point values (Python floats, the
  float64 entries of the operator, the float32 entries of the time series) are modelled
  as exact \<^typ>\<open>real\<close> numbers: rounding, overflow and the float64-to-float32 store are
  outside the model. An exception is a value \<open>Inl e\<close> of a sum type.
\<close>

datatype py_error = ZeroDivisionError | ValueError | IndexError

text \<open>The name of the Python class of an exception.\<close>

fun class_name :: "py_error \<Rightarrow> string" where
  "class_name ZeroDivisionError = ''ZeroDivisionError''"
| "class_name ValueError = ''ValueError''"
| "class_name IndexError = ''IndexError''"

subsection \<open>Parameters\<close>

text \<open>
  \<^verbatim>\<open>g = (a * th) / h**2\<close>. Python's division raises \<^verbatim>\<open>ZeroDivisionError\<close> when the
  divisor is zero.
\<close>

definition gamma :: "real \<Rightarrow> real \<Rightarrow> real \<Rightarrow> py_error + real" where
  "gamma a th h = (if h ^ 2 = 0 then Inl ZeroDivisionError else Inr ((a * th) / h ^ 2))"

subsection \<open>Initial conditions\<close>

text \<open>
  \<^verbatim>\<open>initial = np.array([[0 for i in range(n)] for i in range(n)])\<close>, then
  \<^verbatim>\<open>initial[n//3:2*n//3, n//3:2*n//3] = 50\<close>: an integer array. For \<open>n \<le> 0\<close> the list
  is empty, the array has one dimension, and the assignment to a two-dimensional slice
  raises \<^verbatim>\<open>IndexError\<close>.
\<close>

definition initial :: "int \<Rightarrow> py_error + int list list" where
  "initial n =
     (if n \<le> 0 then Inl IndexError
      else Inr (map (\<lambda>r. map (\<lambda>c. if n div 3 \<le> r \<and> r < 2 * n div 3 \<and>
                                        n div 3 \<le> c \<and> c < 2 * n div 3
                                     then 50 else 0) [0..n - 1]) [0..n - 1]))"

text \<open>\<^verbatim>\<open>initial.flatten()\<close>: the rows one after another (row-major order).\<close>

definition flatten :: "'a list list \<Rightarrow> 'a list" where
  "flatten rows = concat rows"

subsection \<open>Discrete Laplacian operator\<close>

text \<open>
  \<^verbatim>\<open>np.tile(xs, reps)\<close> on a one-dimensional \<open>xs\<close>: \<open>reps\<close> copies of \<open>xs\<close>; a
  negative \<open>reps\<close> raises \<^verbatim>\<open>ValueError\<close>.
\<close>

definition tile :: "'a list \<Rightarrow> int \<Rightarrow> py_error + 'a list" where
  "tile xs reps = (if reps < 0 then Inl ValueError else Inr (concat (replicate (nat reps) xs)))"

text \<open>
  The five rows of \<^verbatim>\<open>data\<close>, in the order of the source. A comprehension
  \<^verbatim>\<open>[v for i in range(k)]\<close> is \<open>replicate (nat k) v\<close> (an empty list when \<open>k \<le> 0\<close>).
  The third row is the integer array of centre coefficients, times \<open>g\<close>, plus \<open>1\<close>.
\<close>

definition data :: "int \<Rightarrow> real \<Rightarrow> py_error + real list list" where
  "data n g =
     (case tile ([0] @ replicate (nat (n - 1)) g) n of
        Inl e \<Rightarrow> Inl e
      | Inr d1 \<Rightarrow>
     (case tile ([- 3] @ replicate (nat (n - 2)) (- 4) @ [- 3]) (n - 2) of
        Inl e \<Rightarrow> Inl e
      | Inr mid \<Rightarrow>
     (case tile (replicate (nat (n - 1)) g @ [0]) n of
        Inl e \<Rightarrow> Inl e
      | Inr d3 \<Rightarrow>
        Inr [replicate (nat (n ^ 2)) g,
             d1,
             map (\<lambda>c::int. of_int c * g + 1)
               ((([- 2] @ replicate (nat (n - 2)) (- 3) @ [- 2]) @ mid)
                  @ ([- 2] @ replicate (nat (n - 2)) (- 3) @ [- 2])),
             d3,
             replicate (nat (n ^ 2)) g])))"

text \<open>\<^verbatim>\<open>np.array(rows)\<close> needs rows of one length.\<close>

definition np_array :: "'a list list \<Rightarrow> py_error + 'a list list" where
  "np_array rows =
     (if \<forall>r \<in> set rows. length r = length (hd rows) then Inr rows else Inl ValueError)"

definition offsets :: "int \<Rightarrow> int list" where
  "offsets n = [n, 1, 0, - 1, - n]"

text \<open>
  A \<^verbatim>\<open>scipy.sparse.dia_array\<close>: row \<open>k\<close> of \<open>dia_data\<close> holds the diagonal of offset
  \<open>dia_offsets ! k\<close>, aligned by column: the entry at row \<open>i\<close> and column \<open>j\<close> is
  \<open>dia_data ! k ! j\<close> when \<open>j - i = dia_offsets ! k\<close>, and zero when no offset is
  \<open>j - i\<close>. The constructor refuses a number of offsets different from the number of
  rows of data, and repeated offsets.
\<close>

record dia_array =
  dia_data :: "real list list"
  dia_offsets :: "int list"
  dia_shape :: "nat \<times> nat"

definition mk_dia_array :: "real list list \<Rightarrow> int list \<Rightarrow> int \<times> int \<Rightarrow> py_error + dia_array" where
  "mk_dia_array d offs shp =
     (if fst shp < 0 \<or> snd shp < 0 \<or> length d \<noteq> length offs \<or> \<not> distinct offs
      then Inl ValueError
      else Inr \<lparr>dia_data = d, dia_offsets = offs, dia_shape = (nat (fst shp), nat (snd shp))\<rparr>)"

definition entry :: "dia_array \<Rightarrow> nat \<Rightarrow> nat \<Rightarrow> real" where
  "entry A i j =
     (if i < fst (dia_shape A) \<and> j < snd (dia_shape A)
      then (case map_of (zip (dia_offsets A) (dia_data A)) (int j - int i) of
              None \<Rightarrow> 0
            | Some row \<Rightarrow> if j < length row then row ! j else 0)
      else 0)"

text \<open>
  \<^verbatim>\<open>A = dia_array((data, offsets), shape=(n**2, n**2)).tocsr()\<close>. The conversion to
  CSR changes the storage and no entry.
\<close>

definition A_matrix :: "int \<Rightarrow> real \<Rightarrow> py_error + dia_array" where
  "A_matrix n g =
     (case data n g of
        Inl e \<Rightarrow> Inl e
      | Inr rows \<Rightarrow>
     (case np_array rows of
        Inl e \<Rightarrow> Inl e
      | Inr d \<Rightarrow> mk_dia_array d (offsets n) (n ^ 2, n ^ 2)))"

text \<open>
  The operator as a function of the notebook's parameters: the cell that computes \<open>g\<close>
  runs before the cell that builds \<open>A\<close>.
\<close>

definition operator :: "real \<Rightarrow> int \<Rightarrow> real \<Rightarrow> real \<Rightarrow> py_error + dia_array" where
  "operator h n th a =
     (case gamma a th h of
        Inl e \<Rightarrow> Inl e
      | Inr g \<Rightarrow> A_matrix n g)"

text \<open>\<^verbatim>\<open>A.dot(x)\<close>: the matrix-vector product.\<close>

definition dot :: "dia_array \<Rightarrow> real list \<Rightarrow> real list" where
  "dot A x =
     map (\<lambda>i. \<Sum>j\<leftarrow>[0..<snd (dia_shape A)]. entry A i j * x ! j) [0..<fst (dia_shape A)]"

subsection \<open>Solution\<close>

text \<open>
  \<^verbatim>\<open>Z = np.zeros((t, n**2))\<close> raises \<^verbatim>\<open>ValueError\<close> for a negative dimension.
  \<^verbatim>\<open>Z[0] = initial.flatten()\<close> raises \<^verbatim>\<open>IndexError\<close> when \<open>Z\<close> has no row, and
  \<^verbatim>\<open>ValueError\<close> when the flattened array has neither \<open>n\<^sup>2\<close> entries nor one entry (a
  single entry is broadcast to the whole row).
\<close>

definition zeros :: "int \<Rightarrow> int \<Rightarrow> py_error + real list list" where
  "zeros rows cols =
     (if rows < 0 \<or> cols < 0 then Inl ValueError
      else Inr (replicate (nat rows) (replicate (nat cols) 0)))"

definition set_row0 :: "real list list \<Rightarrow> real list \<Rightarrow> py_error + real list list" where
  "set_row0 Z v =
     (if Z = [] then Inl IndexError
      else if length v = length (Z ! 0) then Inr (Z[0 := v])
      else if length v = 1 then Inr (Z[0 := replicate (length (Z ! 0)) (v ! 0)])
      else Inl ValueError)"

text \<open>
  \<^verbatim>\<open>Z[i][:n] = b\<close>: the first \<open>n\<close> entries of the row (all of them when the row is
  shorter) become \<open>b\<close>. The notebook writes the literal \<open>50\<close> for \<open>b\<close>.
\<close>

definition set_boundary :: "int \<Rightarrow> real \<Rightarrow> real list \<Rightarrow> real list" where
  "set_boundary n b v = replicate (min (nat n) (length v)) b @ drop (nat n) v"

text \<open>
  The body of the loop \<^verbatim>\<open>for i in range(1, t)\<close>:
  \<^verbatim>\<open>Z[i] = A.dot(Z[i-1]); Z[i][:n] = b\<close>. Every row of \<open>Z\<close> has \<open>n\<^sup>2\<close> entries, as many
  as \<open>A\<close> has columns and rows, so neither the product nor the assignment can fail.
\<close>

definition step :: "dia_array \<Rightarrow> int \<Rightarrow> real \<Rightarrow> nat \<Rightarrow> real list list \<Rightarrow> real list list" where
  "step A n b i Z = Z[i := set_boundary n b (dot A (Z ! (i - 1)))]"

definition Z_flat :: "dia_array \<Rightarrow> int \<Rightarrow> int \<Rightarrow> real list list \<Rightarrow> real \<Rightarrow> py_error + real list list" where
  "Z_flat A n t init b =
     (case zeros t (n ^ 2) of
        Inl e \<Rightarrow> Inl e
      | Inr Z0 \<Rightarrow>
     (case set_row0 Z0 (flatten init) of
        Inl e \<Rightarrow> Inl e
      | Inr Z1 \<Rightarrow> Inr (fold (step A n b) [1..<nat t] Z1)))"

text \<open>\<^verbatim>\<open>Z.reshape((t, n, n))\<close>: every row of \<open>n\<^sup>2\<close> entries becomes \<open>n\<close> rows of \<open>n\<close>.\<close>

definition reshape :: "int \<Rightarrow> 'a list \<Rightarrow> 'a list list" where
  "reshape n v = map (\<lambda>r. take (nat n) (drop (r * nat n) v)) [0..<nat n]"

text \<open>
  The cells from the parameters to the reshaped time series, in one function of the
  globals, the initial array and the boundary constant.
\<close>

definition simulate_flat ::
    "real \<Rightarrow> int \<Rightarrow> real \<Rightarrow> int \<Rightarrow> real \<Rightarrow> real list list \<Rightarrow> real \<Rightarrow> py_error + real list list" where
  "simulate_flat h n th t a init b =
     (case operator h n th a of
        Inl e \<Rightarrow> Inl e
      | Inr A \<Rightarrow> Z_flat A n t init b)"

definition simulate ::
    "real \<Rightarrow> int \<Rightarrow> real \<Rightarrow> int \<Rightarrow> real \<Rightarrow> real list list \<Rightarrow> real \<Rightarrow> py_error + real list list list" where
  "simulate h n th t a init b =
     (case simulate_flat h n th t a init b of
        Inl e \<Rightarrow> Inl e
      | Inr Z \<Rightarrow> Inr (map (reshape n) Z))"

text \<open>
  The notebook itself, cell after cell: \<open>g\<close>, the initial array, the operator and the time
  series with the boundary \<open>50\<close>. The integer entries of the initial array become floats
  when they are stored in \<open>Z\<close>.
\<close>

definition notebook :: "real \<Rightarrow> int \<Rightarrow> real \<Rightarrow> int \<Rightarrow> real \<Rightarrow> py_error + real list list list" where
  "notebook h n th t a =
     (case gamma a th h of
        Inl e \<Rightarrow> Inl e
      | Inr g \<Rightarrow>
     (case initial n of
        Inl e \<Rightarrow> Inl e
      | Inr init \<Rightarrow> simulate h n th t a (map (map of_int) init) 50))"


subsection \<open>Plot\<close>

text \<open>
  \<^verbatim>\<open>norm = Normalize(np.min(initial), np.max(initial))\<close>: the value range of the colour
  scale. \<^verbatim>\<open>np.min\<close> of an array with no entry raises \<^verbatim>\<open>ValueError\<close>.
\<close>

record normalize =
  vmin :: real
  vmax :: real

definition norm_range :: "int list list \<Rightarrow> py_error + normalize" where
  "norm_range init =
     (if flatten init = [] then Inl ValueError
      else Inr \<lparr>vmin = of_int (Min (set (flatten init))),
                vmax = of_int (Max (set (flatten init)))\<rparr>)"

text \<open>
  \<^verbatim>\<open>animate(frame)\<close> clears the axes, sets the title \<^verbatim>\<open>frame*4\<close> and draws
  \<^verbatim>\<open>Z[frame*4]\<close> with the colour map \<^verbatim>\<open>turbo\<close> and the range \<^verbatim>\<open>norm\<close>; what the
  axes show afterwards is one image.
\<close>

record image =
  title :: int
  pixels :: "real list list"
  cmap :: string
  image_norm :: normalize

definition animate :: "real list list list \<Rightarrow> normalize \<Rightarrow> int \<Rightarrow> py_error + image" where
  "animate Z nr frame =
     (let k = frame * 4;
          idx = (if k < 0 then k + int (length Z) else k)
      in if 0 \<le> idx \<and> idx < int (length Z)
         then Inr \<lparr>title = k, pixels = Z ! nat idx, cmap = ''turbo'', image_norm = nr\<rparr>
         else Inl IndexError)"

text \<open>
  \<^verbatim>\<open>FuncAnimation(fig, animate, frames=(t-1) // 4)\<close> draws \<^verbatim>\<open>animate(frame)\<close> for
  every \<^verbatim>\<open>frame\<close> of \<^verbatim>\<open>range((t-1) // 4)\<close>, in this order.
\<close>

definition plot :: "int list list \<Rightarrow> real list list list \<Rightarrow> int \<Rightarrow> py_error + (py_error + image) list" where
  "plot init Z t =
     (case norm_range init of
        Inl e \<Rightarrow> Inl e
      | Inr nr \<Rightarrow> Inr (map (\<lambda>f. animate Z nr (int f)) [0..<nat ((t - 1) div 4)]))"

section \<open>The grid vocabulary of the specification\<close>

text \<open>
  The specification speaks of grid cells: the flat index \<open>i\<close> of an \<open>m \<times> m\<close> grid is the
  cell in row \<open>i div m\<close> and column \<open>i mod m\<close> (\<open>idx = row * n + col\<close>), a cell has up to
  four neighbours (up, down, left, right), an interior cell has all four, a corner cell
  lies in the first or last row and in the first or last column. These definitions
  follow the specification's words; the theorems compare the operator built by the
  code with them.
\<close>

definition row_of :: "nat \<Rightarrow> nat \<Rightarrow> nat" where "row_of m i = i div m"
definition col_of :: "nat \<Rightarrow> nat \<Rightarrow> nat" where "col_of m i = i mod m"

definition neighbours :: "nat \<Rightarrow> nat \<Rightarrow> nat list" where
  "neighbours m i =
     (if 0 < row_of m i then [(row_of m i - 1) * m + col_of m i] else []) @
     (if row_of m i + 1 < m then [(row_of m i + 1) * m + col_of m i] else []) @
     (if 0 < col_of m i then [row_of m i * m + (col_of m i - 1)] else []) @
     (if col_of m i + 1 < m then [row_of m i * m + (col_of m i + 1)] else [])"

definition is_interior :: "nat \<Rightarrow> nat \<Rightarrow> bool" where
  "is_interior m i \<longleftrightarrow> 0 < row_of m i \<and> row_of m i + 1 < m \<and> 0 < col_of m i \<and> col_of m i + 1 < m"

definition is_corner :: "nat \<Rightarrow> nat \<Rightarrow> bool" where
  "is_corner m i \<longleftrightarrow> (row_of m i = 0 \<or> row_of m i + 1 = m) \<and> (col_of m i = 0 \<or> col_of m i + 1 = m)"

definition centerCoefficient :: "nat \<Rightarrow> nat \<Rightarrow> int" where
  "centerCoefficient m i = (if is_interior m i then - 4 else if is_corner m i then - 2 else - 3)"

text \<open>
  The matrix \<open>I + g \<cdot> L\<close> of the specification, entry by entry: the centre coefficient
  on the diagonal, \<open>g\<close> at every neighbour, zero elsewhere.
\<close>

definition stencil :: "nat \<Rightarrow> real \<Rightarrow> nat \<Rightarrow> nat \<Rightarrow> real" where
  "stencil m g i j =
     (if j = i then 1 + g * of_int (centerCoefficient m i)
      else if j \<in> set (neighbours m i) then g else 0)"

section \<open>Concrete values for the examples\<close>

text \<open>The operator of the \<open>3 \<times> 3\<close> grid with \<open>g = 1/4\<close> (\<open>h = 1\<close>, \<open>th = 1/8\<close>, \<open>a = 2\<close>).\<close>

definition A3 :: dia_array where
  "A3 = \<lparr>dia_data =
        [[1 / 4, 1 / 4, 1 / 4, 1 / 4, 1 / 4, 1 / 4, 1 / 4, 1 / 4, 1 / 4],
         [0, 1 / 4, 1 / 4, 0, 1 / 4, 1 / 4, 0, 1 / 4, 1 / 4],
         [1 / 2, 1 / 4, 1 / 2, 1 / 4, 0, 1 / 4, 1 / 2, 1 / 4, 1 / 2],
         [1 / 4, 1 / 4, 0, 1 / 4, 1 / 4, 0, 1 / 4, 1 / 4, 0],
         [1 / 4, 1 / 4, 1 / 4, 1 / 4, 1 / 4, 1 / 4, 1 / 4, 1 / 4, 1 / 4]],
        dia_offsets = [3, 1, 0, - 1, - 3], dia_shape = (9, 9)\<rparr>"

text \<open>
  A run of three steps on the \<open>3 \<times> 3\<close> grid from the initial array \<open>I3\<close>, with the
  boundary constant \<open>50\<close>: the flat time series \<open>Z3\<close> and the reshaped one \<open>R3\<close>.
\<close>

definition I3 :: "real list list" where
  "I3 = [[1, 2, 3], [4, 5, 6], [7, 8, 9]]"

definition Z3 :: "real list list" where
  "Z3 = [[1, 2, 3, 4, 5, 6, 7, 8, 9],
         [50, 50, 50, 17 / 4, 5, 23 / 4, 13 / 2, 29 / 4, 8],
         [50, 50, 50, 263 / 16, 269 / 16, 275 / 16, 49 / 8, 107 / 16, 29 / 4]]"

definition R3 :: "real list list list" where
  "R3 = [[[1, 2, 3], [4, 5, 6], [7, 8, 9]],
         [[50, 50, 50], [17 / 4, 5, 23 / 4], [13 / 2, 29 / 4, 8]],
         [[50, 50, 50], [263 / 16, 269 / 16, 275 / 16], [49 / 8, 107 / 16, 29 / 4]]]"

text \<open>
  The initial array of the notebook for \<open>n = 3\<close>, and a time series of nine frames of
  one pixel, for the plot.
\<close>

definition J3 :: "int list list" where
  "J3 = [[0, 0, 0], [0, 50, 0], [0, 0, 0]]"

definition P9 :: "real list list list" where
  "P9 = [[[0]], [[1]], [[2]], [[3]], [[4]], [[5]], [[6]], [[7]], [[8]]]"
section \<open>Definitions for the stability analysis\<close>

text \<open>
  The frames of a run as a function of the step: frame \<open>0\<close> is the flattened initial
  array and frame \<open>k + 1\<close> is the body of the loop applied to frame \<open>k\<close>. A run of \<open>t\<close>
  steps holds the frames \<open>0, \<dots>, t - 1\<close> of this sequence.
\<close>

primrec frame :: "dia_array \<Rightarrow> int \<Rightarrow> real \<Rightarrow> real list \<Rightarrow> nat \<Rightarrow> real list" where
  "frame A n b x0 0 = x0"
| "frame A n b x0 (Suc k) = set_boundary n b (dot A (frame A n b x0 k))"




section \<open>Lemmas\<close>

subsection \<open>Lists\<close>

lemma length_concat_replicate: "length (concat (replicate k xs)) = k * length xs"
  by (induction k) simp_all

lemma nth_concat_replicate:
  "j < k * length xs \<Longrightarrow> concat (replicate k xs) ! j = xs ! (j mod length xs)"
proof (induction k arbitrary: j)
  case 0
  then show ?case by simp
next
  case (Suc k)
  show ?case
  proof (cases "j < length xs")
    case True
    then show ?thesis by (simp add: nth_append)
  next
    case False
    with Suc.prems have "j - length xs < k * length xs" by simp
    from Suc.IH[OF this] False show ?thesis
      by (simp add: nth_append le_mod_geq)
  qed
qed

lemma nth_ends: 
  "j < k + 2 \<Longrightarrow> ([a] @ replicate k b @ [c]) ! j = (if j = 0 then a else if j = k + 1 then c else b)"
  by (auto simp add: nth_append nth_Cons')


subsection \<open>Flat indices and neighbours\<close>

lemma div_pos_iff_le: "0 < (m::nat) \<Longrightarrow> 0 < i div m \<longleftrightarrow> m \<le> i"
  by (simp add: div_greater_zero_iff)

lemma below_last_row_iff:
  assumes "0 < (m::nat)"
  shows "i div m + 1 < m \<longleftrightarrow> i + m < m * m"
proof
  assume "i div m + 1 < m"
  then have "i div m + 2 \<le> m" by simp
  then have "(i div m + 2) * m \<le> m * m" by (rule mult_le_mono1)
  moreover have "i + m < (i div m + 2) * m"
  proof -
    have "i = (i div m) * m + i mod m" by simp
    moreover have "i mod m < m" using assms by simp
    ultimately have "i < (i div m) * m + m" by linarith
    then show ?thesis by simp
  qed
  ultimately show "i + m < m * m" by linarith
next
  assume a: "i + m < m * m"
  have "(i div m) * m \<le> i" by simp
  then have "(i div m) * m + m < m * m" using a by linarith
  then have "(i div m + 1) * m < m * m" by (simp add: add.commute)
  then show "i div m + 1 < m" by (simp only: mult_less_cancel2)
qed

lemma up_index: "m \<le> i \<Longrightarrow> (i div m - 1) * m + i mod m = i - (m::nat)"
proof -
  assume a: "m \<le> i"
  show ?thesis
  proof (cases "m = 0")
    case True
    then show ?thesis by simp
  next
    case False
    then have "1 \<le> i div m" using a by (simp add: Suc_le_eq div_greater_zero_iff)
    then have "(i div m - 1) * m + m = (i div m) * m"
      by (metis add.commute le_add_diff_inverse mult_Suc plus_1_eq_Suc)
    moreover have "(i div m) * m + i mod m = i" by simp
    ultimately show ?thesis by linarith
  qed
qed

lemma left_index: "i mod m \<noteq> 0 \<Longrightarrow> (i div m) * m + (i mod m - 1) = i - (1::nat)"
proof -
  assume a: "i mod m \<noteq> 0"
  have "(i div m) * m + i mod m = i" by simp
  with a show ?thesis by linarith
qed

lemma neighbours_flat:
  assumes "2 \<le> m" "i < m * m"
  shows "neighbours m i =
     (if m \<le> i then [i - m] else []) @
     (if i + m < m * m then [i + m] else []) @
     (if i mod m \<noteq> 0 then [i - 1] else []) @
     (if i mod m \<noteq> m - 1 then [i + 1] else [])"
proof -
  have m: "0 < m" using assms by simp
  have c: "i mod m < m" using m by simp
  have i: "(i div m) * m + i mod m = i" by simp
  have e1: "(if 0 < i div m then [(i div m - 1) * m + i mod m] else []) =
            (if m \<le> i then [i - m] else [])"
    using div_pos_iff_le[OF m, of i] up_index[of m i] by simp
  have "(i div m + 1) * m + i mod m = i + m"
    using i by (simp add: add.commute add.left_commute)
  then have e2: "(if i div m + 1 < m then [(i div m + 1) * m + i mod m] else []) =
            (if i + m < m * m then [i + m] else [])"
    using below_last_row_iff[OF m, of i] by simp
  have e3: "(if 0 < i mod m then [(i div m) * m + (i mod m - 1)] else []) =
            (if i mod m \<noteq> 0 then [i - 1] else [])"
    using left_index[of i m] by simp
  have "(i div m) * m + (i mod m + 1) = i + 1"
    using i by linarith
  moreover have "i mod m + 1 < m \<longleftrightarrow> i mod m \<noteq> m - 1" using c by linarith
  ultimately have e4: "(if i mod m + 1 < m then [(i div m) * m + (i mod m + 1)] else []) =
            (if i mod m \<noteq> m - 1 then [i + 1] else [])"
    by simp
  show ?thesis
    unfolding neighbours_def row_of_def col_of_def e1 e2 e3 e4 ..
qed

subsection \<open>The centre coefficients\<close>

lemma centerCoefficient_cases:
  assumes "2 \<le> m" "j < m * m"
  shows "centerCoefficient m j =
     (if j div m = 0 \<or> j div m = m - 1
      then (if j mod m = 0 \<or> j mod m = m - 1 then - 2 else - 3)
      else (if j mod m = 0 \<or> j mod m = m - 1 then - 3 else - 4))"
proof -
  have c: "j mod m < m" using assms by simp
  have r: "j div m < m" using assms by (simp add: less_mult_imp_div_less)
  have "j mod m + 1 = m \<longleftrightarrow> j mod m = m - 1" using assms by linarith
  moreover have "j mod m + 1 < m \<longleftrightarrow> j mod m \<noteq> m - 1" using c by linarith
  moreover have "j div m + 1 = m \<longleftrightarrow> j div m = m - 1" using assms by linarith
  moreover have "j div m + 1 < m \<longleftrightarrow> j div m \<noteq> m - 1" using r by linarith
  ultimately show ?thesis
    unfolding centerCoefficient_def is_interior_def is_corner_def row_of_def col_of_def
    by auto
qed

lemma nth_three:
  "j < length a \<Longrightarrow> ((a @ b) @ c) ! j = a ! j"
  "length a \<le> j \<Longrightarrow> j < length a + length b \<Longrightarrow> ((a @ b) @ c) ! j = b ! (j - length a)"
  "length a + length b \<le> j \<Longrightarrow> ((a @ b) @ c) ! j = c ! (j - (length a + length b))"
  by (auto simp add: nth_append)

lemma coefficient_nth:
  assumes "2 \<le> m" "j < m * m"
  shows "((([- 2] @ replicate (m - 2) (- 3) @ [- 2])
            @ concat (replicate (m - 2) ([- 3] @ replicate (m - 2) (- 4) @ [- 3])))
            @ ([- 2] @ replicate (m - 2) (- 3) @ [- 2])) ! j = centerCoefficient m j"
proof -
  define top where "top = [- 2] @ replicate (m - 2) (- 3) @ [- 2 :: int]"
  define mid where "mid = [- 3] @ replicate (m - 2) (- 4) @ [- 3 :: int]"
  define mids where "mids = concat (replicate (m - 2) mid)"
  have lt: "length top = m" and lm: "length mid = m"
    using assms by (simp_all add: top_def mid_def)
  have lc: "length mids = (m - 2) * m"
    unfolding mids_def by (simp only: length_concat_replicate lm)
  have c: "j mod m < m" using assms by simp
  have top: "top ! k = (if k = 0 \<or> k = m - 1 then - 2 else - 3)" if "k < m" for k
    unfolding top_def
    using nth_ends[of k "m - 2" "- 2 :: int" "- 3" "- 2"] that assms by auto
  have mid: "mid ! k = (if k = 0 \<or> k = m - 1 then - 3 else - 4)" if "k < m" for k
    unfolding mid_def
    using nth_ends[of k "m - 2" "- 3 :: int" "- 4" "- 3"] that assms by auto
  have "m - 1 = Suc (m - 2)" using assms by linarith
  then have split: "m + (m - 2) * m = (m - 1) * m" by simp
  have cc: "centerCoefficient m j =
     (if j div m = 0 \<or> j div m = m - 1
      then (if j mod m = 0 \<or> j mod m = m - 1 then - 2 else - 3)
      else (if j mod m = 0 \<or> j mod m = m - 1 then - 3 else - 4))"
    by (rule centerCoefficient_cases[OF assms])
  consider (first) "j < m" | (middle) "m \<le> j" "j < (m - 1) * m" | (last) "(m - 1) * m \<le> j"
    by linarith
  then have "((top @ mids) @ top) ! j = centerCoefficient m j"
  proof cases
    case first
    have jd: "j div m = 0" and jm: "j mod m = j" using first by simp_all
    have "((top @ mids) @ top) ! j = top ! j"
      using first lt by (simp only: nth_three(1))
    also have "\<dots> = (if j = 0 \<or> j = m - 1 then - 2 else - 3)"
      by (rule top[OF first])
    also have "\<dots> = centerCoefficient m j"
      unfolding cc jd jm by simp
    finally show ?thesis .
  next
    case middle
    have d: "j div m \<noteq> 0" using middle assms by (simp add: div_greater_zero_iff)
    have "j div m < m - 1" using middle by (simp add: less_mult_imp_div_less)
    then have d': "j div m \<noteq> m - 1" by simp
    have jm: "j - m < (m - 2) * m" using middle split by linarith
    have mm: "(j - m) mod m = j mod m" using middle by (simp add: le_mod_geq)
    have "length top \<le> j" "j < length top + length mids"
      using middle split by (simp_all only: lt lc)
    then have "((top @ mids) @ top) ! j = mids ! (j - length top)"
      by (rule nth_three(2))
    also have "\<dots> = mid ! ((j - m) mod m)"
      unfolding mids_def lt
      using nth_concat_replicate[of "j - m" "m - 2" mid] jm
      by (simp only: lm)
    also have "\<dots> = (if j mod m = 0 \<or> j mod m = m - 1 then - 3 else - 4)"
      unfolding mm by (rule mid[OF c])
    also have "\<dots> = centerCoefficient m j"
      unfolding cc using d d' by simp
    finally show ?thesis .
  next
    case last
    have "(m - 1) * m div m \<le> j div m" using last by (rule div_le_mono)
    then have "m - 1 \<le> j div m" using assms by simp
    moreover have "j div m < m" using assms by (simp add: less_mult_imp_div_less)
    ultimately have d: "j div m = m - 1" by linarith
    have "(j div m) * m + j mod m = j" by simp
    then have idx: "j - (m - 1) * m = j mod m" unfolding d by linarith
    have "length top + length mids \<le> j"
      using last split by (simp only: lt lc)
    then have "((top @ mids) @ top) ! j = top ! (j - (length top + length mids))"
      by (rule nth_three(3))
    also have "\<dots> = (if j mod m = 0 \<or> j mod m = m - 1 then - 2 else - 3)"
      unfolding lt lc split idx by (rule top[OF c])
    also have "\<dots> = centerCoefficient m j"
      unfolding cc d by simp
    finally show ?thesis .
  qed
  then show ?thesis unfolding mids_def top_def mid_def .
qed

subsection \<open>The rows of data\<close>

lemma nat_facts:
  assumes "2 \<le> (n::int)"
  shows "nat (n ^ 2) = nat n * nat n" "nat (n - 1) = nat n - 1" "nat (n - 2) = nat n - 2" "2 \<le> nat n"
  using assms by (simp_all add: power2_eq_square nat_mult_distrib nat_diff_distrib)

lemma data_Inr:
  assumes "2 \<le> n"
  shows "data n g = Inr
     [replicate (nat n * nat n) g,
      concat (replicate (nat n) ([0] @ replicate (nat n - 1) g)),
      map (\<lambda>c::int. of_int c * g + 1)
        ((([- 2] @ replicate (nat n - 2) (- 3) @ [- 2])
            @ concat (replicate (nat n - 2) ([- 3] @ replicate (nat n - 2) (- 4) @ [- 3])))
            @ ([- 2] @ replicate (nat n - 2) (- 3) @ [- 2])),
      concat (replicate (nat n) (replicate (nat n - 1) g @ [0])),
      replicate (nat n * nat n) g]"
proof -
  have t1: "tile xs n = Inr (concat (replicate (nat n) xs))" for xs :: "real list"
    using assms by (simp add: tile_def)
  have t2: "tile xs (n - 2) = Inr (concat (replicate (nat n - 2) xs))" for xs :: "int list"
    using assms by (simp add: tile_def nat_diff_distrib)
  show ?thesis
    unfolding data_def t1 t2 nat_facts[OF assms] sum.case ..
qed

lemma data_lengths:
  assumes "2 \<le> n" "data n g = Inr rows"
  shows "\<forall>r \<in> set rows. length r = nat n * nat n"
proof -
  define m where "m = nat n"
  have m: "2 \<le> m" using assms(1) by (simp add: m_def)
  obtain k where k: "m = k + 2" using m by (metis add.commute le_Suc_ex)
  define top where "top = [- 2] @ replicate (m - 2) (- 3) @ [- 2 :: int]"
  define mid where "mid = [- 3] @ replicate (m - 2) (- 4) @ [- 3 :: int]"
  define d1 where "d1 = concat (replicate m ([0] @ replicate (m - 1) g))"
  define d3 where "d3 = concat (replicate m (replicate (m - 1) g @ [0]))"
  define d2 where "d2 = map (\<lambda>c::int. of_int c * g + 1) ((top @ concat (replicate (m - 2) mid)) @ top)"
  have lt: "length top = m" and lm: "length mid = m"
    using m by (simp_all add: top_def mid_def)
  have l1: "length d1 = m * m" and l3: "length d3 = m * m"
    using m by (simp_all add: d1_def d3_def length_concat_replicate)
  have "m + (m - 2) * m + m = m * m" unfolding k by simp
  then have l2: "length d2 = m * m"
    unfolding d2_def by (simp only: length_map length_append length_concat_replicate lt lm)
  have "rows = [replicate (m * m) g, d1, d2, d3, replicate (m * m) g]"
    using assms(2)
    unfolding data_Inr[OF assms(1)] m_def[symmetric] top_def[symmetric] mid_def[symmetric]
      d1_def[symmetric] d2_def[symmetric] d3_def[symmetric]
    by simp
  then show ?thesis
    unfolding m_def[symmetric] using l1 l2 l3 by simp
qed

lemma np_array_Inr: "\<forall>r \<in> set rows. length r = k \<Longrightarrow> np_array rows = Inr rows"
  by (cases rows) (simp_all add: np_array_def)

lemma A_matrix_Inr:
  assumes "2 \<le> n" "data n g = Inr rows"
  shows "A_matrix n g =
     Inr \<lparr>dia_data = rows, dia_offsets = [n, 1, 0, - 1, - n],
          dia_shape = (nat n * nat n, nat n * nat n)\<rparr>"
proof -
  have np: "np_array rows = Inr rows"
    using data_lengths[OF assms] by (rule np_array_Inr)
  have l: "length rows = 5"
    using assms(2) unfolding data_Inr[OF assms(1)] by auto
  have d: "distinct [n, 1, 0, - 1, - n]" using assms(1) by simp
  have sq: "nat (n ^ 2) = nat n * nat n" using assms(1) by (rule nat_facts)
  have nn: "\<not> n ^ 2 < 0" by simp
  show ?thesis
    unfolding A_matrix_def assms(2) np sum.case mk_dia_array_def offsets_def fst_conv snd_conv sq
    using l d nn by simp
qed

lemma data_Inl: "n < 2 \<Longrightarrow> data n g = Inl ValueError"
  by (simp add: data_def tile_def)

subsection \<open>The entries of the operator, one by one\<close>

lemma mem_neighbours:
  assumes "2 \<le> m" "i < m * m"
  shows "j \<in> set (neighbours m i) \<longleftrightarrow>
           j + m = i \<or> (j = i + m \<and> j < m * m) \<or>
           (j + 1 = i \<and> i mod m \<noteq> 0) \<or> (j = i + 1 \<and> i mod m \<noteq> m - 1)"
proof -
  have "i mod m \<noteq> 0 \<Longrightarrow> 0 < i" by (cases "i = 0") simp_all
  then show ?thesis
    unfolding neighbours_flat[OF assms] using assms(1) by auto
qed

lemma succ_mod_zero_iff:
  assumes "2 \<le> (m::nat)"
  shows "(i + 1) mod m = 0 \<longleftrightarrow> i mod m = m - 1"
proof -
  have "i mod m < m" using assms by simp
  then have "Suc (i mod m) = m \<longleftrightarrow> i mod m = m - 1" by linarith
  then show ?thesis using assms by (simp add: mod_Suc)
qed

lemma nth_Cons_replicate:
  "k < Suc l \<Longrightarrow> ([a] @ replicate l b) ! k = (if k = 0 then a else b)"
  by (cases k) simp_all

lemma nth_replicate_snoc:
  "k < Suc l \<Longrightarrow> (replicate l b @ [c]) ! k = (if k = l then c else b)"
  by (auto simp add: nth_append)

lemma stencil_cases:
  assumes "2 \<le> m" "i < m * m" "j < m * m"
  shows "stencil m g i j =
     (if j = i + m then g
      else if j = i + 1 then (if i mod m = m - 1 then 0 else g)
      else if j = i then 1 + g * of_int (centerCoefficient m i)
      else if j + 1 = i then (if i mod m = 0 then 0 else g)
      else if j + m = i then g
      else 0)"
  unfolding stencil_def mem_neighbours[OF assms(1,2)] using assms by auto

lemma entry_cases:
  assumes "2 \<le> n" "A_matrix n g = Inr A" "i < nat n * nat n" "j < nat n * nat n"
  shows "entry A i j =
     (if j = i + nat n then g
      else if j = i + 1 then (if i mod nat n = nat n - 1 then 0 else g)
      else if j = i then 1 + g * of_int (centerCoefficient (nat n) i)
      else if j + 1 = i then (if i mod nat n = 0 then 0 else g)
      else if j + nat n = i then g
      else 0)"
proof -
  define m where "m = nat n"
  have m: "2 \<le> m" using assms(1) by (simp add: m_def)
  have n: "n = int m" using assms(1) by (simp add: m_def)
  define top where "top = [- 2] @ replicate (m - 2) (- 3) @ [- 2 :: int]"
  define mid where "mid = [- 3] @ replicate (m - 2) (- 4) @ [- 3 :: int]"
  define co where "co = (top @ concat (replicate (m - 2) mid)) @ top"
  define d1 where "d1 = concat (replicate m ([0] @ replicate (m - 1) g))"
  define d3 where "d3 = concat (replicate m (replicate (m - 1) g @ [0]))"
  define d2 where "d2 = map (\<lambda>c::int. of_int c * g + 1) co"
  define r0 where "r0 = replicate (m * m) g"
  have rows: "data n g = Inr [r0, d1, d2, d3, r0]"
    unfolding data_Inr[OF assms(1)] m_def[symmetric] top_def[symmetric] mid_def[symmetric]
      co_def[symmetric] d1_def[symmetric] d2_def[symmetric] d3_def[symmetric] r0_def[symmetric] ..
  have len: "length r0 = m * m" "length d1 = m * m" "length d2 = m * m" "length d3 = m * m"
    using data_lengths[OF assms(1) rows] by (simp_all add: m_def)
  have A: "A = \<lparr>dia_data = [r0, d1, d2, d3, r0], dia_offsets = [int m, 1, 0, - 1, - int m],
          dia_shape = (m * m, m * m)\<rparr>"
    using A_matrix_Inr[OF assms(1) rows] assms(2) unfolding m_def[symmetric] n by simp
  have i: "i < m * m" and j: "j < m * m" using assms(3,4) by (simp_all add: m_def)
  have e0: "r0 ! j = g" using j by (simp add: r0_def)
  have l1: "length ([0] @ replicate (m - 1) g) = m" using m by simp
  have "d1 ! j = ([0] @ replicate (m - 1) g) ! (j mod m)"
    unfolding d1_def using nth_concat_replicate[of j m "[0] @ replicate (m - 1) g"] j
    by (simp only: l1)
  moreover have jm: "j mod m < Suc (m - 1)" using m by simp
  ultimately have e1: "d1 ! j = (if j mod m = 0 then 0 else g)"
    by (simp only: nth_Cons_replicate)
  have "co ! j = centerCoefficient m j"
    unfolding co_def top_def mid_def by (rule coefficient_nth[OF m j])
  moreover have "j < length co" using len(3) j by (simp add: d2_def)
  ultimately have e2: "d2 ! j = 1 + g * of_int (centerCoefficient m j)"
    by (simp add: d2_def)
  have l3: "length (replicate (m - 1) g @ [0]) = m" using m by simp
  have "d3 ! j = (replicate (m - 1) g @ [0]) ! (j mod m)"
    unfolding d3_def using nth_concat_replicate[of j m "replicate (m - 1) g @ [0]"] j
    by (simp only: l3)
  then have e3: "d3 ! j = (if j mod m = m - 1 then 0 else g)"
    using jm by (simp only: nth_replicate_snoc)
  have s1: "j = i + 1 \<Longrightarrow> (j mod m = 0) = (i mod m = m - 1)"
    using succ_mod_zero_iff[OF m, of i] by simp
  have s3: "j + 1 = i \<Longrightarrow> (j mod m = m - 1) = (i mod m = 0)"
    using succ_mod_zero_iff[OF m, of j] by simp
  have "entry A i j =
     (if int j - int i = int m then r0 ! j
      else if int j - int i = 1 then d1 ! j
      else if int j - int i = 0 then d2 ! j
      else if int j - int i = - 1 then d3 ! j
      else if int j - int i = - int m then r0 ! j
      else 0)"
    unfolding entry_def A using i j len by simp
  also have "\<dots> =
     (if j = i + m then g
      else if j = i + 1 then (if i mod m = m - 1 then 0 else g)
      else if j = i then 1 + g * of_int (centerCoefficient m i)
      else if j + 1 = i then (if i mod m = 0 then 0 else g)
      else if j + m = i then g
      else 0)"
    unfolding e0 e1 e2 e3 using s1 s3 by auto
  finally show ?thesis unfolding m_def .
qed

lemma entry_stencil:
  assumes "2 \<le> n" "A_matrix n g = Inr A" "i < nat n * nat n" "j < nat n * nat n"
  shows "entry A i j = stencil (nat n) g i j"
proof -
  have "2 \<le> nat n" using assms(1) by simp
  from stencil_cases[OF this assms(3,4)] entry_cases[OF assms] show ?thesis by simp
qed

lemma entry_outside:
  assumes "2 \<le> n" "A_matrix n g = Inr A" "\<not> (i < nat n * nat n \<and> j < nat n * nat n)"
  shows "entry A i j = 0"
proof -
  obtain rows where rows: "data n g = Inr rows"
    using data_Inr[OF assms(1)] by blast
  show ?thesis
    using A_matrix_Inr[OF assms(1) rows] assms(2,3) by (auto simp add: entry_def)
qed

lemma shape_A_matrix:
  assumes "2 \<le> n" "A_matrix n g = Inr A"
  shows "dia_shape A = (nat n * nat n, nat n * nat n)"
proof -
  obtain rows where rows: "data n g = Inr rows"
    using data_Inr[OF assms(1)] by blast
  show ?thesis
    using A_matrix_Inr[OF assms(1) rows] assms(2) by auto
qed

subsection \<open>The operator of the notebook's parameters\<close>

lemma neighbours_count:
  assumes "2 \<le> m" "i < m * m"
  shows "centerCoefficient m i = - int (length (neighbours m i))"
    and "is_interior m i \<longleftrightarrow> length (neighbours m i) = 4"
    and "is_corner m i \<longleftrightarrow> length (neighbours m i) = 2"
    and "\<not> is_interior m i \<and> \<not> is_corner m i \<longleftrightarrow> length (neighbours m i) = 3"
proof -
  define r where "r = i div m"
  define c where "c = i mod m"
  have r: "r < m" unfolding r_def using assms by (simp add: less_mult_imp_div_less)
  have c: "c < m" unfolding c_def using assms by simp
  show "centerCoefficient m i = - int (length (neighbours m i))"
    unfolding centerCoefficient_def is_interior_def is_corner_def neighbours_def row_of_def col_of_def
      r_def[symmetric] c_def[symmetric]
    using r c assms(1) by auto
  show "is_interior m i \<longleftrightarrow> length (neighbours m i) = 4"
    unfolding is_interior_def neighbours_def row_of_def col_of_def
      r_def[symmetric] c_def[symmetric]
    using r c assms(1) by auto
  show "is_corner m i \<longleftrightarrow> length (neighbours m i) = 2"
    unfolding is_corner_def neighbours_def row_of_def col_of_def
      r_def[symmetric] c_def[symmetric]
    using r c assms(1) by auto
  show "\<not> is_interior m i \<and> \<not> is_corner m i \<longleftrightarrow> length (neighbours m i) = 3"
    unfolding is_interior_def is_corner_def neighbours_def row_of_def col_of_def
      r_def[symmetric] c_def[symmetric]
    using r c assms(1) by auto
qed

lemma operator_Inr_D:
  assumes "operator h n th a = Inr A"
  shows "h \<noteq> 0" "2 \<le> n" "A_matrix n (a * th / h ^ 2) = Inr A"
proof -
  show h: "h \<noteq> 0" using assms by (auto simp add: operator_def gamma_def)
  then have A: "A_matrix n (a * th / h ^ 2) = Inr A"
    using assms by (simp add: operator_def gamma_def)
  then show "A_matrix n (a * th / h ^ 2) = Inr A" .
  show "2 \<le> n"
  proof (rule ccontr)
    assume "\<not> 2 \<le> n"
    then have "A_matrix n (a * th / h ^ 2) = Inl ValueError"
      by (simp add: A_matrix_def data_Inl)
    with A show False by simp
  qed
qed

lemma operator_Inr_I:
  assumes "h \<noteq> 0" "2 \<le> n"
  shows "\<exists>A. operator h n th a = Inr A"
proof -
  obtain rows where rows: "data n (a * th / h ^ 2) = Inr rows"
    using data_Inr[OF assms(2)] by blast
  show ?thesis
    using A_matrix_Inr[OF assms(2) rows] assms(1)
    by (simp add: operator_def gamma_def)
qed

lemma last_index_mod:
  assumes "2 \<le> (m::nat)" "i < m * m" "\<not> i + 1 < m * m"
  shows "i mod m = m - 1"
proof -
  have "i + 1 = m * m" using assms by linarith
  then have "(i + 1) mod m = 0" by simp
  then show ?thesis by (simp only: succ_mod_zero_iff[OF assms(1)])
qed

lemma operator_A3: "operator 1 3 (1 / 8) 2 = Inr A3"
  unfolding A3_def by code_simp

lemma stencil_sym:
  assumes "2 \<le> m" "i < m * m" "j < m * m"
  shows "stencil m g i j = stencil m g j i"
proof -
  have a: "j = i + 1 \<Longrightarrow> (i mod m = m - 1) = (j mod m = 0)"
    using succ_mod_zero_iff[OF assms(1), of i] by simp
  have b: "i = j + 1 \<Longrightarrow> (j mod m = m - 1) = (i mod m = 0)"
    using succ_mod_zero_iff[OF assms(1), of j] by simp
  show ?thesis
    unfolding stencil_cases[OF assms] stencil_cases[OF assms(1) assms(3) assms(2)]
    using a b assms(1) by auto
qed

lemma entry_sym:
  assumes "operator h n th a = Inr A" and "i < nat n * nat n" and "j < nat n * nat n"
  shows "entry A i j = entry A j i"
proof -
  note D = operator_Inr_D[OF assms(1)]
  have m: "2 \<le> nat n" using D(2) by simp
  have "entry A i j = stencil (nat n) (a * th / h ^ 2) i j"
    by (rule entry_stencil[OF D(2) D(3) assms(2,3)])
  also have "\<dots> = stencil (nat n) (a * th / h ^ 2) j i"
    by (rule stencil_sym[OF m assms(2,3)])
  also have "\<dots> = entry A j i"
    by (rule entry_stencil[OF D(2) D(3) assms(3,2), symmetric])
  finally show ?thesis .
qed

subsection \<open>The loop over the steps\<close>

lemma fold_step:
  assumes "Suc k \<le> length Z1"
  shows "length (fold (step A n b) [1..<Suc k] Z1) = length Z1 \<and>
         (\<forall>i. i = 0 \<or> Suc k \<le> i \<longrightarrow> fold (step A n b) [1..<Suc k] Z1 ! i = Z1 ! i) \<and>
         (\<forall>i. 1 \<le> i \<and> i \<le> k \<longrightarrow>
            fold (step A n b) [1..<Suc k] Z1 ! i =
            set_boundary n b (dot A (fold (step A n b) [1..<Suc k] Z1 ! (i - 1))))"
  using assms
proof (induction k)
  case 0
  then show ?case by simp
next
  case (Suc k)
  define F where "F = fold (step A n b) [1..<Suc k] Z1"
  have le: "Suc k \<le> length Z1" using Suc.prems by simp
  note ih = Suc.IH[OF le, folded F_def]
  have IH: "length F = length Z1"
    "\<And>i. i = 0 \<or> Suc k \<le> i \<Longrightarrow> F ! i = Z1 ! i"
    "\<And>i. 1 \<le> i \<Longrightarrow> i \<le> k \<Longrightarrow> F ! i = set_boundary n b (dot A (F ! (i - 1)))"
    using ih by blast+
  have "[1..<Suc (Suc k)] = [1..<Suc k] @ [Suc k]" by simp
  then have "fold (step A n b) [1..<Suc (Suc k)] Z1 = step A n b (Suc k) F"
    unfolding F_def by (simp only: fold_append fold.simps comp_apply id_apply)
  then have next_eq: "fold (step A n b) [1..<Suc (Suc k)] Z1 = F[Suc k := set_boundary n b (dot A (F ! k))]"
    by (simp add: step_def)
  have k: "Suc k < length F" using Suc.prems IH(1) by simp
  show ?case
    unfolding next_eq
  proof (intro conjI allI impI)
    show "length (F[Suc k := set_boundary n b (dot A (F ! k))]) = length Z1"
      using IH(1) by simp
  next
    fix i assume "i = 0 \<or> Suc (Suc k) \<le> i"
    then have "i \<noteq> Suc k" "i = 0 \<or> Suc k \<le> i" by auto
    then show "F[Suc k := set_boundary n b (dot A (F ! k))] ! i = Z1 ! i"
      using IH(2)[of i] by simp
  next
    fix i assume i: "1 \<le> i \<and> i \<le> Suc k"
    have "i - 1 \<noteq> Suc k" using i by linarith
    then have prev: "F[Suc k := set_boundary n b (dot A (F ! k))] ! (i - 1) = F ! (i - 1)"
      by (simp only: nth_list_update_neq not_sym)
    show "F[Suc k := set_boundary n b (dot A (F ! k))] ! i =
          set_boundary n b (dot A (F[Suc k := set_boundary n b (dot A (F ! k))] ! (i - 1)))"
    proof (cases "i = Suc k")
      case True
      then show ?thesis unfolding prev using k by simp
    next
      case False
      then have "i \<le> k" using i by simp
      then show ?thesis unfolding prev using IH(3)[of i] i False by simp
    qed
  qed
qed

lemma Z_flat_steps:
  assumes "Z_flat A n t init b = Inr Z"
  shows "1 \<le> t"
    and "length Z = nat t"
    and "1 \<le> i \<Longrightarrow> i < nat t \<Longrightarrow> Z ! i = set_boundary n b (dot A (Z ! (i - 1)))"
    and "length (flatten init) = nat (n ^ 2) \<Longrightarrow> Z ! 0 = flatten init"
proof -
  define Z0 :: "real list list" where "Z0 = replicate (nat t) (replicate (nat (n ^ 2)) 0)"
  have t0: "0 \<le> t" and z: "zeros t (n ^ 2) = Inr Z0"
    using assms unfolding Z_flat_def zeros_def Z0_def by (auto split: if_splits)
  obtain Z1 where s: "set_row0 Z0 (flatten init) = Inr Z1"
    and Z: "Z = fold (step A n b) [1..<nat t] Z1"
    using assms unfolding Z_flat_def z by (auto split: sum.splits)
  have ne: "Z0 \<noteq> []" using s unfolding set_row0_def by (auto split: if_splits)
  then show t: "1 \<le> t" unfolding Z0_def using t0 by (cases "t = 0") simp_all
  have l1: "length Z1 = nat t"
    using s unfolding set_row0_def Z0_def by (auto split: if_splits)
  obtain k where k: "nat t = Suc k" using t by (cases "nat t") simp_all
  note F = fold_step[of k Z1 A n b, unfolded k[symmetric]]
  have le: "nat t \<le> length Z1" using l1 by simp
  show "length Z = nat t" using F[OF le] l1 Z by simp
  show "Z ! i = set_boundary n b (dot A (Z ! (i - 1)))" if "1 \<le> i" "i < nat t"
  proof -
    have "i \<le> k" using that k by simp
    then show ?thesis using F[OF le] that Z by simp
  qed
  show "Z ! 0 = flatten init" if "length (flatten init) = nat (n ^ 2)"
  proof -
    have "Z ! 0 = Z1 ! 0" using F[OF le] Z by simp
    moreover have "Z1 = Z0[0 := flatten init]"
      using s that ne t unfolding set_row0_def Z0_def by (auto split: if_splits)
    ultimately show ?thesis using ne by (cases Z0) simp_all
  qed
qed

lemma length_dot: "length (dot A x) = fst (dia_shape A)"
  by (simp add: dot_def)


lemma length_set_boundary: "length (set_boundary n b v) = length v"
  by (simp add: set_boundary_def)

lemma set_boundary_nth:
  "k < length v \<Longrightarrow> set_boundary n b v ! k = (if k < nat n then b else v ! k)"
  by (auto simp add: set_boundary_def nth_append)

lemma length_flatten:
  assumes "length init = m" "\<forall>row \<in> set init. length row = m"
  shows "length (flatten init) = m * m"
proof -
  have "map length init = replicate (length init) m"
    using assms(2) by (simp add: map_replicate_const[symmetric] cong: map_cong)
  then show ?thesis
    unfolding flatten_def using assms(1) by (simp add: length_concat sum_list_replicate)
qed

lemma Z_flat_Inr:
  assumes "1 \<le> t" "length (flatten init) = nat (n ^ 2)"
  shows "\<exists>Z. Z_flat A n t init b = Inr Z"
  using assms by (cases "nat t") (simp_all add: Z_flat_def zeros_def set_row0_def)

lemma concat_take_rows:
  "concat (map (\<lambda>r. take m (drop (r * m) v)) [0..<k]) = take (k * m) v"
proof (induction k)
  case 0
  then show ?case by simp
next
  case (Suc k)
  have "Suc k * m = k * m + m" by simp
  then have "take (Suc k * m) v = take (k * m) v @ take m (drop (k * m) v)"
    by (simp only: take_add)
  then show ?case using Suc by simp
qed

lemma concat_reshape:
  assumes "length v = nat n * nat n"
  shows "concat (reshape n v) = v"
  unfolding reshape_def concat_take_rows using assms by simp

lemma reshape_shape:
  assumes "length v = nat n * nat n"
  shows "length (reshape n v) = nat n" "\<forall>row \<in> set (reshape n v). length row = nat n"
proof -
  show "length (reshape n v) = nat n" by (simp add: reshape_def)
  have "length (take (nat n) (drop (r * nat n) v)) = nat n" if "r < nat n" for r
  proof -
    have "Suc r \<le> nat n" using that by simp
    then have "Suc r * nat n \<le> nat n * nat n" by (rule mult_le_mono1)
    then have "nat n \<le> nat n * nat n - r * nat n" by simp
    then show ?thesis using assms by simp
  qed
  then show "\<forall>row \<in> set (reshape n v). length row = nat n"
    by (auto simp add: reshape_def)
qed

lemma simulate_flat_Z3: "simulate_flat 1 3 (1 / 8) 3 2 I3 50 = Inr Z3"
  by code_simp

lemma simulate_flat_D:
  assumes "simulate_flat h n th t a init b = Inr Z"
  shows "\<exists>A. operator h n th a = Inr A \<and> Z_flat A n t init b = Inr Z"
  using assms unfolding simulate_flat_def by (cases "operator h n th a") simp_all

lemma frame_lengths:
  assumes "Z_flat A n t init b = Inr Z" "fst (dia_shape A) = nat (n ^ 2)" "i < nat t"
  shows "length (Z ! i) = nat (n ^ 2)"
proof (cases "i = 0")
  case False
  then have "Z ! i = set_boundary n b (dot A (Z ! (i - 1)))"
    using Z_flat_steps(3)[OF assms(1), of i] assms(3) by simp
  then show ?thesis using assms(2) by (simp add: length_set_boundary length_dot)
next
  case True
  define Z0 :: "real list list" where "Z0 = replicate (nat t) (replicate (nat (n ^ 2)) 0)"
  have t0: "0 \<le> t" and z: "zeros t (n ^ 2) = Inr Z0"
    using assms(1) unfolding Z_flat_def zeros_def Z0_def by (auto split: if_splits)
  obtain Z1 where s: "set_row0 Z0 (flatten init) = Inr Z1"
    and Z: "Z = fold (step A n b) [1..<nat t] Z1"
    using assms(1) unfolding Z_flat_def z by (auto split: sum.splits)
  obtain k where k: "nat t = Suc k" using assms(3) by (cases "nat t") simp_all
  have l0: "length (Z0 ! 0) = nat (n ^ 2)" unfolding Z0_def k by simp
  have l1: "length Z1 = nat t" and l10: "length (Z1 ! 0) = nat (n ^ 2)"
    using s l0 unfolding set_row0_def by (auto simp add: Z0_def k split: if_splits)
  have "Z ! 0 = Z1 ! 0"
    using fold_step[of k Z1 A n b] l1 unfolding Z k by simp
  then show ?thesis using True l10 by simp
qed

lemma simulate_R3: "simulate 1 3 (1 / 8) 3 2 I3 50 = Inr R3"
  by code_simp

lemma I3_shape: "length I3 = nat 3" "\<forall>row \<in> set I3. length row = nat 3"
  by (simp_all add: I3_def)

subsection \<open>The animation\<close>

lemma animate_norm: "animate Z nr f = Inr im \<Longrightarrow> image_norm im = nr"
  by (auto simp add: animate_def Let_def split: if_splits)

lemma animate_Inr:
  assumes "4 * f < length Z"
  shows "animate Z nr (int f) =
           Inr \<lparr>title = int f * 4, pixels = Z ! (4 * f), cmap = ''turbo'', image_norm = nr\<rparr>"
proof -
  have "int f * 4 < int (length Z)" using assms by linarith
  moreover have "nat (int f * 4) = 4 * f" by (simp add: nat_mult_distrib)
  ultimately show ?thesis by (simp add: animate_def Let_def)
qed

lemma initial_J3: "initial 3 = Inr J3"
  by code_simp

lemma plot_P9:
  "plot J3 P9 9 =
     Inr [Inr \<lparr>title = 0, pixels = [[0]], cmap = ''turbo'', image_norm = \<lparr>vmin = 0, vmax = 50\<rparr>\<rparr>,
          Inr \<lparr>title = 4, pixels = [[4]], cmap = ''turbo'', image_norm = \<lparr>vmin = 0, vmax = 50\<rparr>\<rparr>]"
  by code_simp

subsection \<open>Row sums\<close>




subsection \<open>The frames of a run\<close>



subsection \<open>The maximum principle\<close>





subsection \<open>Two facts about real sums and sequences\<close>



subsection \<open>The chessboard run\<close>








subsection \<open>The energy of the chessboard run is log-convex\<close>




subsection \<open>The first step of the chessboard run\<close>








subsection \<open>Divergence\<close>


subsection \<open>Both sides of the limit\<close>







subsection \<open>The chessboard around the boundary value\<close>








subsection \<open>Runs outside the hypotheses\<close>










section \<open>The entries of the operator\<close>

text \<open>
  Claim C2. When the operator is built (\<open>operator h n th a = Inr A\<close>), its main-diagonal
  entry at every flat index \<open>i < n\<^sup>2\<close> is \<open>1 + \<gamma> \<cdot> c(i)\<close> with \<open>\<gamma> = a \<cdot> th / h\<^sup>2\<close>, where
  \<open>c(i)\<close> is minus the number of grid neighbours of cell \<open>i\<close>: \<open>-4\<close> for an interior cell
  (four neighbours), \<open>-2\<close> for a corner (two neighbours) and \<open>-3\<close> for the other cells
  (edge but not corner, three neighbours).
\<close>

theorem diagonal_entries:
  assumes "operator h n th a = Inr A" and "i < nat (n ^ 2)"
  shows "entry A i i = 1 + (a * th / h ^ 2) * of_int (centerCoefficient (nat n) i) \<and>
         centerCoefficient (nat n) i = - int (length (neighbours (nat n) i)) \<and>
         (is_interior (nat n) i \<longleftrightarrow> length (neighbours (nat n) i) = 4) \<and>
         (is_corner (nat n) i \<longleftrightarrow> length (neighbours (nat n) i) = 2) \<and>
         (\<not> is_interior (nat n) i \<and> \<not> is_corner (nat n) i \<longleftrightarrow> length (neighbours (nat n) i) = 3)"
proof -
  note D = operator_Inr_D[OF assms(1)]
  have m: "2 \<le> nat n" using D(2) by simp
  have i: "i < nat n * nat n" using assms(2) nat_facts(1)[OF D(2)] by simp
  have "entry A i i = 1 + (a * th / h ^ 2) * of_int (centerCoefficient (nat n) i)"
    using entry_cases[OF D(2) D(3) i i] m D(2) by simp
  then show ?thesis
    using neighbours_count[OF m i] by (intro conjI)
qed

theorem diagonal_entries_witness:
  "operator 1 3 (1 / 8) 2 = Inr A3 \<and> (4::nat) < nat (3 ^ 2) \<and>
   entry A3 4 4 = 0 \<and> centerCoefficient 3 4 = - 4 \<and>
   length (neighbours 3 4) = 4 \<and> is_interior 3 4"
proof -
  have i: "(4::nat) < nat (3 ^ 2)" by simp
  have c: "centerCoefficient 3 4 = - 4" by code_simp
  have l: "length (neighbours 3 4) = 4" by code_simp
  have n3: "nat 3 = 3" by simp
  note T = diagonal_entries[OF operator_A3 i, unfolded n3]
  have e: "entry A3 4 4 = 0" using T[THEN conjunct1] unfolding c by simp
  have "is_interior 3 4 \<longleftrightarrow> length (neighbours 3 4) = 4"
    using T[THEN conjunct2, THEN conjunct2, THEN conjunct1] .
  then have int: "is_interior 3 4" using l by (rule iffD2)
  show ?thesis using operator_A3 i e c l int by (intro conjI)
qed

text \<open>
  Claim C3. For every flat index \<open>i < n\<^sup>2\<close> of the built operator: the entry right of the
  diagonal is zero when cell \<open>i\<close> lies in grid column \<open>n - 1\<close> and \<open>\<gamma>\<close> otherwise; the entry
  left of the diagonal is zero when cell \<open>i\<close> lies in grid column \<open>0\<close> and \<open>\<gamma>\<close> otherwise;
  the entries at \<open>i + n\<close> and \<open>i - n\<close> are \<open>\<gamma>\<close> whenever that index lies in \<open>[0, n\<^sup>2)\<close>, and
  the entry at \<open>i + n\<close> is zero (absent) when \<open>i + n \<ge> n\<^sup>2\<close>.
\<close>

theorem neighbour_entries:
  assumes "operator h n th a = Inr A" and "i < nat (n ^ 2)"
  shows "entry A i (i + 1) = (if col_of (nat n) i = nat n - 1 then 0 else a * th / h ^ 2) \<and>
         (0 < i \<longrightarrow> entry A i (i - 1) = (if col_of (nat n) i = 0 then 0 else a * th / h ^ 2)) \<and>
         entry A i (i + nat n) = (if i + nat n < nat (n ^ 2) then a * th / h ^ 2 else 0) \<and>
         (nat n \<le> i \<longrightarrow> entry A i (i - nat n) = a * th / h ^ 2)"
proof -
  note D = operator_Inr_D[OF assms(1)]
  define m where "m = nat n"
  define g where "g = a * th / h ^ 2"
  have m: "2 \<le> m" using D(2) by (simp add: m_def)
  have sq: "nat (n ^ 2) = m * m" unfolding m_def by (rule nat_facts(1)[OF D(2)])
  have i: "i < m * m" using assms(2) sq by simp
  have A: "A_matrix n g = Inr A" unfolding g_def by (rule D(3))
  have cases: "entry A i j =
     (if j = i + m then g
      else if j = i + 1 then (if i mod m = m - 1 then 0 else g)
      else if j = i then 1 + g * of_int (centerCoefficient m i)
      else if j + 1 = i then (if i mod m = 0 then 0 else g)
      else if j + m = i then g
      else 0)" if "j < m * m" for j
    using entry_cases[OF D(2) A] i that unfolding m_def by blast
  have out: "entry A i j = 0" if "\<not> j < m * m" for j
    using entry_outside[OF D(2) A, of i j] that unfolding m_def by blast
  have right: "entry A i (i + 1) = (if i mod m = m - 1 then 0 else g)"
  proof (cases "i + 1 < m * m")
    case True
    show ?thesis using cases[OF True] m by simp
  next
    case False
    show ?thesis using out[OF False] last_index_mod[OF m i False] by simp
  qed
  have left: "entry A i (i - 1) = (if i mod m = 0 then 0 else g)" if "0 < i"
  proof -
    have e: "i - 1 + 1 = i" "i - 1 \<noteq> i" "i - 1 \<noteq> i + 1" "i - 1 \<noteq> i + m"
      using that by simp_all
    have "i - 1 < m * m" using i by simp
    from cases[OF this] show ?thesis by (simp only: e if_True if_False simp_thms)
  qed
  have down: "entry A i (i + m) = (if i + m < m * m then g else 0)"
  proof (cases "i + m < m * m")
    case True
    show ?thesis using cases[OF True] True by simp
  next
    case False
    show ?thesis using out[OF False] False by simp
  qed
  have up: "entry A i (i - m) = g" if "m \<le> i"
  proof -
    have e: "i - m + m = i" "i - m \<noteq> i" "i - m \<noteq> i + 1" "i - m \<noteq> i + m" "i - m + 1 \<noteq> i"
      using that m by simp_all
    have "i - m < m * m" using i by simp
    from cases[OF this] show ?thesis by (simp only: e if_True if_False simp_thms)
  qed
  show ?thesis
    unfolding col_of_def m_def[symmetric] g_def[symmetric] sq
    using right left down up by (intro conjI impI)
qed

theorem neighbour_entries_witness:
  "operator 1 3 (1 / 8) 2 = Inr A3 \<and> (5::nat) < nat (3 ^ 2) \<and>
   entry A3 5 6 = 0 \<and> entry A3 5 4 = 1 / 4 \<and> entry A3 5 8 = 1 / 4 \<and> entry A3 5 2 = 1 / 4"
proof -
  have i: "(5::nat) < nat (3 ^ 2)" by simp
  have n3: "nat 3 = 3" by simp
  have c: "col_of 3 5 = 2" by code_simp
  note T = neighbour_entries[OF operator_A3 i, unfolded n3 c]
  have r: "entry A3 5 6 = 0" using T[THEN conjunct1] by simp
  have l: "entry A3 5 4 = 1 / 4"
    using T[THEN conjunct2, THEN conjunct1] by simp
  have d: "entry A3 5 8 = 1 / 4"
    using T[THEN conjunct2, THEN conjunct2, THEN conjunct1] by simp
  have u: "entry A3 5 2 = 1 / 4"
    using T[THEN conjunct2, THEN conjunct2, THEN conjunct2] by simp
  show ?thesis using operator_A3 i r l d u by (intro conjI)
qed

text \<open>
  Claim C10. The built operator is symmetric: \<open>A[i, j] = A[j, i]\<close> for all flat indices
  \<open>i, j < n\<^sup>2\<close>.
\<close>

theorem operator_symmetric:
  assumes "operator h n th a = Inr A" and "i < nat (n ^ 2)" and "j < nat (n ^ 2)"
  shows "entry A i j = entry A j i"
proof -
  have "2 \<le> n" by (rule operator_Inr_D(2)[OF assms(1)])
  then have sq: "nat (n ^ 2) = nat n * nat n" by (rule nat_facts(1))
  show ?thesis
    using assms(2,3) unfolding sq by (rule entry_sym[OF assms(1)])
qed

theorem operator_symmetric_witness:
  "operator 1 3 (1 / 8) 2 = Inr A3 \<and> (2::nat) < nat (3 ^ 2) \<and> (5::nat) < nat (3 ^ 2) \<and>
   entry A3 2 5 = entry A3 5 2 \<and> entry A3 5 2 = 1 / 4"
proof -
  have i: "(2::nat) < nat (3 ^ 2)" and j: "(5::nat) < nat (3 ^ 2)" by simp_all
  have e: "entry A3 5 2 = 1 / 4" by code_simp
  show ?thesis
    using operator_A3 i j operator_symmetric[OF operator_A3 i j] e by (intro conjI)
qed

section \<open>Failures of the construction\<close>

text \<open>
  Claim C6 says that the construction fails with an \<open>InvalidParameters\<close> error when
  \<open>h = 0\<close> or \<open>n < 2\<close>. The notebook validates nothing and has no such error: with
  \<open>h = 0\<close> the division in \<open>g\<close> raises \<open>ZeroDivisionError\<close>, with \<open>n = 1\<close> a negative
  repetition count in \<open>np.tile\<close> raises \<open>ValueError\<close>.
\<close>

theorem operator_failure_counterexample:
  "operator 0 2 (1 / 8) 2 = Inl ZeroDivisionError \<and>
   class_name ZeroDivisionError \<noteq> ''InvalidParameters'' \<and>
   operator 1 1 (1 / 8) 2 = Inl ValueError \<and>
   class_name ValueError \<noteq> ''InvalidParameters''"
  by code_simp

text \<open>
  Claim C6, amended. The construction fails when \<open>h = 0\<close> or \<open>n < 2\<close>, and a failed
  construction returns an error and no operator, whole or partial. The error is not
  \<open>InvalidParameters\<close>: when \<open>h = 0\<close> the division that computes \<open>g\<close> raises
  \<open>ZeroDivisionError\<close>, before any array is built; when \<open>n < 2\<close> the rows of \<open>data\<close> cannot
  be built, whatever \<open>g\<close> is, and \<open>np.tile\<close> raises \<open>ValueError\<close>.
\<close>

theorem operator_failure:
  "(h = 0 \<longrightarrow> gamma a th h = Inl ZeroDivisionError \<and>
              operator h n th a = Inl ZeroDivisionError) \<and>
   (n < 2 \<longrightarrow> A_matrix n g = Inl ValueError \<and> (\<forall>A. operator h n th a \<noteq> Inr A))"
proof (intro conjI impI)
  assume "h = 0"
  then show "gamma a th h = Inl ZeroDivisionError"
    by (simp add: gamma_def)
next
  assume "h = 0"
  then show "operator h n th a = Inl ZeroDivisionError"
    by (simp add: operator_def gamma_def)
next
  assume "n < 2"
  then show "A_matrix n g = Inl ValueError"
    by (simp add: A_matrix_def data_Inl)
next
  assume n: "n < 2"
  show "\<forall>A. operator h n th a \<noteq> Inr A"
  proof (intro allI notI)
    fix A assume "operator h n th a = Inr A"
    then have "2 \<le> n" by (rule operator_Inr_D(2))
    with n show False by simp
  qed
qed

theorem operator_failure_witness:
  "gamma 2 (1 / 8) 0 = Inl ZeroDivisionError \<and>
   operator 0 3 (1 / 8) 2 = Inl ZeroDivisionError \<and>
   A_matrix 1 (1 / 4) = Inl ValueError \<and>
   A_matrix 0 (1 / 4) = Inl ValueError \<and>
   A_matrix (- 1) (1 / 4) = Inl ValueError \<and>
   operator 1 1 (1 / 8) 2 \<noteq> Inr A3"
proof -
  have z: "(0::real) = 0" and n1: "(1::int) < 2" and n0: "(0::int) < 2"
    and nm: "(- 1::int) < 2" by simp_all
  note H = operator_failure[where h = 0 and a = 2 and th = "1 / 8" and n = 3 and g = "1 / 4",
      THEN conjunct1, rule_format, OF z]
  have "A_matrix 1 (1 / 4) = Inl ValueError"
    using operator_failure[where h = 1 and a = 2 and th = "1 / 8" and n = "1" and g = "1 / 4",
        THEN conjunct2, rule_format, OF n1]
    by (rule conjunct1)
  moreover have "A_matrix 0 (1 / 4) = Inl ValueError"
    using operator_failure[where h = 1 and a = 2 and th = "1 / 8" and n = "0" and g = "1 / 4",
        THEN conjunct2, rule_format, OF n0]
    by (rule conjunct1)
  moreover have "A_matrix (- 1) (1 / 4) = Inl ValueError"
    using operator_failure[where h = 1 and a = 2 and th = "1 / 8" and n = "- 1" and g = "1 / 4",
        THEN conjunct2, rule_format, OF nm]
    by (rule conjunct1)
  moreover have "operator 1 1 (1 / 8) 2 \<noteq> Inr A3"
    using operator_failure[where h = 1 and a = 2 and th = "1 / 8" and n = "1" and g = "1 / 4",
        THEN conjunct2, rule_format, OF n1]
    by blast
  ultimately show ?thesis using H by blast
qed



section \<open>The time series\<close>



text \<open>
  Claim C4. For every step \<open>i\<close> with \<open>1 \<le> i < t\<close>, every entry of frame \<open>i\<close> at a flat index
  below \<open>n\<close> (grid row \<open>0\<close>) is the boundary constant.
\<close>

theorem boundary_invariant:
  assumes "simulate_flat h n th t a init b = Inr Z"
      and "1 \<le> i" and "i < nat t" and "k < nat n"
  shows "Z ! i ! k = b"
proof -
  obtain A where A: "operator h n th a = Inr A" and ZA: "Z_flat A n t init b = Inr Z"
    using simulate_flat_D[OF assms(1)] by blast
  note D = operator_Inr_D[OF A]
  have sq: "nat (n ^ 2) = nat n * nat n" by (rule nat_facts(1)[OF D(2)])
  have shape: "fst (dia_shape A) = nat n * nat n"
    using shape_A_matrix[OF D(2) D(3)] by simp
  have "nat n \<le> nat n * nat n" using D(2) by simp
  then have "k < nat n * nat n" using assms(4) by (rule less_le_trans[rotated])
  then have "k < length (dot A (Z ! (i - 1)))"
    using shape by (simp add: length_dot)
  then have "set_boundary n b (dot A (Z ! (i - 1))) ! k = b"
    using assms(4) by (simp add: set_boundary_nth)
  then show ?thesis
    using Z_flat_steps(3)[OF ZA assms(2,3)] by simp
qed

theorem boundary_invariant_witness:
  "simulate_flat 1 3 (1 / 8) 3 2 I3 50 = Inr Z3 \<and> (1::nat) \<le> 2 \<and> (2::nat) < nat 3 \<and>
   (1::nat) < nat 3 \<and> Z3 ! 2 ! 1 = 50 \<and> Z3 ! 0 ! 1 = 2"
proof -
  have a: "(1::nat) \<le> 2" and b: "(2::nat) < nat 3" and c: "(1::nat) < nat 3" by simp_all
  have z: "Z3 ! 0 ! 1 = 2" by (simp add: Z3_def)
  show ?thesis
    using simulate_flat_Z3 a b c boundary_invariant[OF simulate_flat_Z3 a b c] z
    by (intro conjI)
qed

text \<open>
  Claim C7. With \<open>h \<noteq> 0\<close>, \<open>n \<ge> 2\<close>, \<open>t \<ge> 1\<close> and an \<open>n \<times> n\<close> initial array the simulation
  returns a sequence of exactly \<open>t\<close> frames, in the order of the steps; every frame is
  \<open>n\<close> rows of \<open>n\<close> values, the rows of the flat frame of the same step one after
  another.
\<close>

theorem output_frames:
  assumes "h \<noteq> 0" and "2 \<le> n" and "1 \<le> t"
      and "length init = nat n" and "\<forall>row \<in> set init. length row = nat n"
  shows "\<exists>Z Zf. simulate h n th t a init b = Inr Z \<and>
           simulate_flat h n th t a init b = Inr Zf \<and>
           length Z = nat t \<and>
           (\<forall>i < nat t. length (Z ! i) = nat n \<and>
                         (\<forall>row \<in> set (Z ! i). length row = nat n) \<and>
                         concat (Z ! i) = Zf ! i)"
proof -
  obtain A where A: "operator h n th a = Inr A"
    using operator_Inr_I[OF assms(1,2)] by blast
  note D = operator_Inr_D[OF A]
  have sq: "nat (n ^ 2) = nat n * nat n" by (rule nat_facts(1)[OF D(2)])
  have shape: "fst (dia_shape A) = nat (n ^ 2)"
    using shape_A_matrix[OF D(2) D(3)] sq by simp
  have li: "length (flatten init) = nat (n ^ 2)"
    unfolding sq by (rule length_flatten[OF assms(4,5)])
  obtain Zf where ZA: "Z_flat A n t init b = Inr Zf"
    using Z_flat_Inr[OF assms(3) li] by blast
  have Zf: "simulate_flat h n th t a init b = Inr Zf"
    unfolding simulate_flat_def A using ZA by simp
  have Z: "simulate h n th t a init b = Inr (map (reshape n) Zf)"
    unfolding simulate_def Zf by simp
  have len: "length Zf = nat t" by (rule Z_flat_steps(2)[OF ZA])
  have frames: "length (map (reshape n) Zf ! i) = nat n \<and>
                (\<forall>row \<in> set (map (reshape n) Zf ! i). length row = nat n) \<and>
                concat (map (reshape n) Zf ! i) = Zf ! i" if "i < nat t" for i
  proof -
    have l: "length (Zf ! i) = nat n * nat n"
      using frame_lengths[OF ZA shape that] sq by simp
    have e: "map (reshape n) Zf ! i = reshape n (Zf ! i)"
      using that len by simp
    show ?thesis
      unfolding e using reshape_shape[OF l] concat_reshape[OF l] by (intro conjI)
  qed
  show ?thesis
    using Z Zf len frames by (intro exI[of _ "map (reshape n) Zf"] exI[of _ Zf]) simp
qed

theorem output_frames_witness:
  "simulate 1 3 (1 / 8) 3 2 I3 50 = Inr R3 \<and> simulate_flat 1 3 (1 / 8) 3 2 I3 50 = Inr Z3 \<and>
   length R3 = nat 3 \<and> length (R3 ! 2) = nat 3 \<and> length (R3 ! 2 ! 1) = nat 3 \<and>
   concat (R3 ! 2) = Z3 ! 2"
proof -
  have h: "(1::real) \<noteq> 0" and n: "(2::int) \<le> 3" and t: "(1::int) \<le> 3" by simp_all
  obtain Z Zf where Z: "simulate 1 3 (1 / 8) 3 2 I3 50 = Inr Z"
    and Zf: "simulate_flat 1 3 (1 / 8) 3 2 I3 50 = Inr Zf"
    and len: "length Z = nat 3"
    and fr: "\<forall>i < nat 3. length (Z ! i) = nat 3 \<and>
                         (\<forall>row \<in> set (Z ! i). length row = nat 3) \<and>
                         concat (Z ! i) = Zf ! i"
    using output_frames[OF h n t I3_shape, of "1 / 8" 2 50] by blast
  have ZR: "Z = R3" using Z simulate_R3 by simp
  have ZZ: "Zf = Z3" using Zf simulate_flat_Z3 by simp
  have i: "(2::nat) < nat 3" by simp
  have f2: "length (R3 ! 2) = nat 3 \<and>
           (\<forall>row \<in> set (R3 ! 2). length row = nat 3) \<and> concat (R3 ! 2) = Z3 ! 2"
    using fr[rule_format, OF i] unfolding ZR ZZ .
  have "R3 ! 2 ! 1 \<in> set (R3 ! 2)" by (simp add: R3_def)
  then have r: "length (R3 ! 2 ! 1) = nat 3"
    by (rule bspec[OF f2[THEN conjunct2, THEN conjunct1]])
  show ?thesis
    using simulate_R3 simulate_flat_Z3 len[unfolded ZR] f2[THEN conjunct1] r
      f2[THEN conjunct2, THEN conjunct2]
    by (intro conjI)
qed

section \<open>The plot\<close>

text \<open>
  Claim C8. The value range of the normalization is the minimum and the maximum of the
  initial array, computed before the animation; every image the animation draws
  carries this one range, whatever the frame and whatever the time series holds. With
  a time series of \<open>t\<close> frames every drawing succeeds and shows frame \<open>4 \<cdot> f\<close>.
\<close>

theorem fixed_normalization:
  assumes "plot init Z t = Inr frames" and "f < length frames"
  shows "(\<forall>im. frames ! f = Inr im \<longrightarrow>
            image_norm im = \<lparr>vmin = of_int (Min (set (flatten init))),
                             vmax = of_int (Max (set (flatten init)))\<rparr>) \<and>
         (length Z = nat t \<longrightarrow> (\<exists>im. frames ! f = Inr im \<and> pixels im = Z ! (4 * f)))"
proof -
  define nr where "nr = \<lparr>vmin = of_int (Min (set (flatten init))),
                             vmax = of_int (Max (set (flatten init)))\<rparr>"
  have nr: "norm_range init = Inr nr"
    using assms(1) unfolding plot_def norm_range_def nr_def by (auto split: if_splits)
  have fr: "frames = map (\<lambda>f. animate Z nr (int f)) [0..<nat ((t - 1) div 4)]"
    using assms(1) unfolding plot_def nr by simp
  have f: "f < nat ((t - 1) div 4)" using assms(2) fr by simp
  have e: "frames ! f = animate Z nr (int f)" using f fr by simp
  have "4 * f < nat t"
  proof -
    have "int f < (t - 1) div 4" using f by linarith
    then have "4 * int f < t" by linarith
    then show ?thesis by linarith
  qed
  then have "length Z = nat t \<Longrightarrow> \<exists>im. frames ! f = Inr im \<and> pixels im = Z ! (4 * f)"
    unfolding e using animate_Inr[of f Z nr] by simp
  moreover have "\<forall>im. frames ! f = Inr im \<longrightarrow> image_norm im = nr"
    unfolding e using animate_norm by blast
  ultimately show ?thesis unfolding nr_def by blast
qed

theorem fixed_normalization_witness:
  "initial 3 = Inr J3 \<and> plot J3 P9 9 =
     Inr [Inr \<lparr>title = 0, pixels = [[0]], cmap = ''turbo'', image_norm = \<lparr>vmin = 0, vmax = 50\<rparr>\<rparr>,
          Inr \<lparr>title = 4, pixels = [[4]], cmap = ''turbo'', image_norm = \<lparr>vmin = 0, vmax = 50\<rparr>\<rparr>] \<and>
   \<lparr>vmin = 0, vmax = 50\<rparr> =
     \<lparr>vmin = of_int (Min (set (flatten J3))),
      vmax = of_int (Max (set (flatten J3)))\<rparr>"
proof -
  have f: "(1::nat) < length [Inr \<lparr>title = 0, pixels = [[0]], cmap = ''turbo'', image_norm = \<lparr>vmin = 0, vmax = 50\<rparr>\<rparr>,
          Inr \<lparr>title = 4, pixels = [[4::real]], cmap = ''turbo'', image_norm = \<lparr>vmin = 0, vmax = 50\<rparr>\<rparr> :: py_error + image]"
    by simp
  note T = fixed_normalization[OF plot_P9 f, THEN conjunct1, rule_format,
      of "\<lparr>title = 4, pixels = [[4]], cmap = ''turbo'', image_norm = \<lparr>vmin = 0, vmax = 50\<rparr>\<rparr>"]
  have "image_norm \<lparr>title = 4, pixels = [[4]], cmap = ''turbo'', image_norm = \<lparr>vmin = 0, vmax = 50\<rparr>\<rparr> =
     \<lparr>vmin = of_int (Min (set (flatten J3))),
      vmax = of_int (Max (set (flatten J3)))\<rparr>"
    by (rule T) simp
  then have "\<lparr>vmin = 0, vmax = 50\<rparr> =
     \<lparr>vmin = of_int (Min (set (flatten J3))),
      vmax = of_int (Max (set (flatten J3)))\<rparr>"
    by simp
  then show ?thesis using initial_J3 plot_P9 by (intro conjI)
qed

section \<open>Stability\<close>




end
